theory Spec2Isabelle
  imports Main
begin

section \<open>Data model of solver.py\<close>

text \<open>
  The Python class \<open>Variable\<close> is a record. Its \<open>value\<close> is the string \<open>'0'\<close>
  (unassigned) or the decimal string of a number; it is represented by the integer that
  \<open>int(var.value)\<close> reads, so \<open>str(val)\<close> is \<open>val\<close> and \<open>'0'\<close> is \<open>0\<close>.
  The \<open>domain\<close> is the Python list of 0/1 flags (flag \<open>k\<close> stands for the digit
  \<open>k + 1\<close>); the four dot fields are the strings of the source (\<open>'0'\<close> none,
  \<open>'1'\<close> white, \<open>'2'\<close> black). The board is the nested list \<open>board[i][j]\<close>.
  Mutation in place is explicit state passing: every function that writes to the board
  returns the new board. An exception of the source is a value \<open>Inl e\<close>.
\<close>

datatype py_error = IndexError | UnboundLocalError | TypeError

record variable =
  "value" :: int
  domain :: "int list"
  up :: string
  down :: string
  left :: string
  right :: string

type_synonym board = "variable list list"
type_synonym position = "nat \<times> nat"
type_synonym change_record = "(position \<times> int list) list"

abbreviation NUM_ROWS :: nat where "NUM_ROWS \<equiv> 9"
abbreviation NUM_COLS :: nat where "NUM_COLS \<equiv> 9"

definition DOMAIN :: "int list" where
  "DOMAIN = [1, 1, 1, 1, 1, 1, 1, 1, 1]"

definition assigned :: "variable \<Rightarrow> bool" where
  "assigned var = (value var \<noteq> 0)"

definition remaining_value_count :: "variable \<Rightarrow> int" where
  "remaining_value_count var = sum_list (domain var)"

definition cell :: "board \<Rightarrow> position \<Rightarrow> variable" where
  "cell b p = b ! fst p ! snd p"

definition set_cell :: "board \<Rightarrow> position \<Rightarrow> variable \<Rightarrow> board" where
  "set_cell b p var = b[fst p := (b ! fst p)[snd p := var]]"

definition set_domain :: "board \<Rightarrow> position \<Rightarrow> int list \<Rightarrow> board" where
  "set_domain b p d = set_cell b p ((cell b p)\<lparr>domain := d\<rparr>)"

definition set_value :: "board \<Rightarrow> position \<Rightarrow> int \<Rightarrow> board" where
  "set_value b p v = set_cell b p ((cell b p)\<lparr>value := v\<rparr>)"

subsection \<open>Python list indexing\<close>

text \<open>
  \<open>xs[i]\<close> with an integer index: a negative index counts from the end, an index
  outside \<open>-len .. len - 1\<close> raises IndexError.
\<close>

definition py_index :: "nat \<Rightarrow> int \<Rightarrow> nat option" where
  "py_index n i =
     (if 0 \<le> i \<and> i < int n then Some (nat i)
      else if - int n \<le> i \<and> i < 0 then Some (nat (int n + i))
      else None)"

definition py_getitem :: "'a list \<Rightarrow> int \<Rightarrow> py_error + 'a" where
  "py_getitem xs i = (case py_index (length xs) i of None \<Rightarrow> Inl IndexError | Some k \<Rightarrow> Inr (xs ! k))"

definition py_setitem :: "'a list \<Rightarrow> int \<Rightarrow> 'a \<Rightarrow> py_error + 'a list" where
  "py_setitem xs i v = (case py_index (length xs) i of None \<Rightarrow> Inl IndexError | Some k \<Rightarrow> Inr (xs[k := v]))"

text \<open>The position that \<open>board[i][j]\<close> reads, for integer indices.\<close>

definition locate :: "board \<Rightarrow> int \<Rightarrow> int \<Rightarrow> position option" where
  "locate b i j =
     (case py_index (length b) i of
        None \<Rightarrow> None
      | Some k \<Rightarrow> (case py_index (length (b ! k)) j of None \<Rightarrow> None | Some l \<Rightarrow> Some (k, l)))"

section \<open>Neighbourhoods\<close>

definition box_indexes :: "nat \<Rightarrow> nat \<Rightarrow> position list" where
  "box_indexes i j =
     (let istart = (i div 3) * 3; jstart = (j div 3) * 3;
          ilst = [istart, istart, istart, istart+1, istart+1, istart+1, istart+2, istart+2, istart+2];
          jlst = [jstart, jstart+1, jstart+2, jstart, jstart+1, jstart+2, jstart, jstart+1, jstart+2]
      in zip ilst jlst)"

text \<open>
  The three neighbour loops of \<open>update_neighbors\<close>, \<open>forward_check\<close> and
  \<open>unassigned_neighbors_count\<close> visit, in this order, the cells of the row
  (\<open>k \<noteq> jvar\<close>), of the column (\<open>k \<noteq> ivar\<close>) and of the box
  (skipping \<open>k = ivar\<close> or \<open>l = jvar\<close>).
\<close>

definition row_positions :: "nat \<Rightarrow> nat \<Rightarrow> position list" where
  "row_positions ivar jvar = map (\<lambda>k. (ivar, k)) (filter (\<lambda>k. k \<noteq> jvar) [0..<NUM_COLS])"

definition col_positions :: "nat \<Rightarrow> nat \<Rightarrow> position list" where
  "col_positions ivar jvar = map (\<lambda>k. (k, jvar)) (filter (\<lambda>k. k \<noteq> ivar) [0..<NUM_ROWS])"

definition box_positions :: "nat \<Rightarrow> nat \<Rightarrow> position list" where
  "box_positions ivar jvar = filter (\<lambda>(k, l). \<not> (k = ivar \<or> l = jvar)) (box_indexes ivar jvar)"

section \<open>Dot constraints\<close>

definition dot_remains :: "string \<Rightarrow> int \<Rightarrow> py_error + int list" where
  "dot_remains dot_type valint =
     (if dot_type = ''1'' then
        (if valint = 1 then Inr [valint + 1]
         else if valint = 9 then Inr [valint - 1]
         else Inr [valint - 1, valint + 1])
      else if dot_type = ''2'' then
        (if valint mod 2 = 0 \<and> valint \<le> 4 then Inr [valint div 2, valint * 2]
         else if valint mod 2 = 0 \<and> valint > 4 then Inr [valint div 2]
         else if valint mod 2 = 1 \<and> valint \<le> 3 then Inr [valint * 2]
         else if valint mod 2 = 1 \<and> valint > 3 then Inr []
         else Inl UnboundLocalError)
      else Inl UnboundLocalError)"

text \<open>
  \<open>for k in range(len(dom)): if k + 1 not in remain: dom[k] = 0\<close>
\<close>

definition restrict_domain :: "int list \<Rightarrow> int list \<Rightarrow> int list" where
  "restrict_domain d remain =
     map (\<lambda>k. if int k + 1 \<in> set remain then d ! k else 0) [0..<length d]"

section \<open>Forward checking\<close>

text \<open>The first pass of \<open>forward_check\<close>: the domains of the unassigned neighbours.\<close>

definition save_domains :: "board \<Rightarrow> position list \<Rightarrow> change_record" where
  "save_domains b ps = map (\<lambda>p. (p, domain (cell b p))) (filter (\<lambda>p. \<not> assigned (cell b p)) ps)"

text \<open>
  One positional loop of the second pass: the flag is False when the loop returned
  early on an emptied domain.
\<close>

fun prune_loop :: "board \<Rightarrow> int \<Rightarrow> position list \<Rightarrow> py_error + bool \<times> board" where
  "prune_loop b valint [] = Inr (True, b)"
| "prune_loop b valint (p # ps) =
     (if assigned (cell b p) then prune_loop b valint ps
      else (case py_setitem (domain (cell b p)) (valint - 1) 0 of
              Inl e \<Rightarrow> Inl e
            | Inr d \<Rightarrow>
                (let b' = set_domain b p d
                 in if remaining_value_count (cell b' p) = 0 then Inr (False, b')
                    else prune_loop b' valint ps)))"

text \<open>
  One dot block: \<open>if dot != '0' and not board[ni][nj].assigned(): ...\<close>, where
  \<open>ni\<close>, \<open>nj\<close> are the integer indices the source computes (\<open>ivar - 1\<close> may be
  \<open>-1\<close>, \<open>ivar + 1\<close> may be 9).
\<close>

definition dot_prune :: "board \<Rightarrow> string \<Rightarrow> int \<Rightarrow> int \<Rightarrow> int \<Rightarrow> py_error + bool \<times> board" where
  "dot_prune b dot ni nj valint =
     (if dot \<noteq> ''0'' then
        (case locate b ni nj of
           None \<Rightarrow> Inl IndexError
         | Some p \<Rightarrow>
             (if \<not> assigned (cell b p) then
                (case dot_remains dot valint of
                   Inl e \<Rightarrow> Inl e
                 | Inr remain \<Rightarrow>
                     (let b' = set_domain b p (restrict_domain (domain (cell b p)) remain)
                      in if remaining_value_count (cell b' p) = 0 then Inr (False, b')
                         else Inr (True, b')))
              else Inr (True, b)))
      else Inr (True, b))"

text \<open>Sequencing with the early \<open>return False, original\<close> and with exceptions.\<close>

definition and_then :: "py_error + bool \<times> board \<Rightarrow> (board \<Rightarrow> py_error + bool \<times> board) \<Rightarrow> py_error + bool \<times> board" where
  "and_then r f = (case r of Inl e \<Rightarrow> Inl e | Inr (c, b) \<Rightarrow> if c then f b else Inr (False, b))"

definition forward_steps :: "board \<Rightarrow> nat \<Rightarrow> nat \<Rightarrow> py_error + bool \<times> board" where
  "forward_steps b ivar jvar =
     (let valint = value (cell b (ivar, jvar)) in
      and_then (and_then (and_then (and_then (and_then (and_then
        (prune_loop b valint (row_positions ivar jvar))
        (\<lambda>b. prune_loop b valint (col_positions ivar jvar)))
        (\<lambda>b. prune_loop b valint (box_positions ivar jvar)))
        (\<lambda>b. dot_prune b (up (cell b (ivar, jvar))) (int ivar - 1) (int jvar) valint))
        (\<lambda>b. dot_prune b (down (cell b (ivar, jvar))) (int ivar + 1) (int jvar) valint))
        (\<lambda>b. dot_prune b (left (cell b (ivar, jvar))) (int ivar) (int jvar - 1) valint))
        (\<lambda>b. dot_prune b (right (cell b (ivar, jvar))) (int ivar) (int jvar + 1) valint))"

text \<open>
  \<open>forward_check\<close> returns the pair \<open>(consistent, original)\<close>; the third component
  is the board as the call leaves it.
\<close>

definition forward_check :: "board \<Rightarrow> nat \<Rightarrow> nat \<Rightarrow> py_error + bool \<times> change_record \<times> board" where
  "forward_check b ivar jvar =
     (let original = save_domains b (row_positions ivar jvar)
                   @ save_domains b (col_positions ivar jvar)
                   @ save_domains b (box_positions ivar jvar)
      in case forward_steps b ivar jvar of
           Inl e \<Rightarrow> Inl e
         | Inr (consistent, b') \<Rightarrow> Inr (consistent, original, b'))"

fun remove_inferences :: "board \<Rightarrow> change_record \<Rightarrow> board" where
  "remove_inferences b [] = b"
| "remove_inferences b ((var_pos, og_dom) # original) =
     remove_inferences (set_domain b var_pos og_dom) original"

section \<open>Variable selection\<close>

definition all_positions :: "position list" where
  "all_positions = concat (map (\<lambda>i. map (\<lambda>j. (i, j)) [0..<NUM_COLS]) [0..<NUM_ROWS])"

definition assignment_complete :: "board \<Rightarrow> bool" where
  "assignment_complete b = list_all (\<lambda>p. assigned (cell b p)) all_positions"

definition count_unassigned :: "board \<Rightarrow> position list \<Rightarrow> nat" where
  "count_unassigned b ps = length (filter (\<lambda>p. \<not> assigned (cell b p)) ps)"

definition unassigned_neighbors_count :: "board \<Rightarrow> nat \<Rightarrow> nat \<Rightarrow> nat" where
  "unassigned_neighbors_count b i j =
     count_unassigned b (row_positions i j) + count_unassigned b (col_positions i j)
       + count_unassigned b (box_positions i j)"

text \<open>
  The MRV loop: the state is the list \<open>mrv\<close> and \<open>curr_mrv\<close>, where \<open>None\<close> is
  \<open>math.inf\<close>.
\<close>

fun mrv_loop :: "board \<Rightarrow> position list \<Rightarrow> position list \<times> int option \<Rightarrow> position list \<times> int option" where
  "mrv_loop b [] st = st"
| "mrv_loop b (p # ps) (mrv, curr_mrv) =
     (if assigned (cell b p) then mrv_loop b ps (mrv, curr_mrv)
      else (let remain_val = remaining_value_count (cell b p) in
            case curr_mrv of
              None \<Rightarrow> mrv_loop b ps ([p], Some remain_val)
            | Some c \<Rightarrow>
                if remain_val > c then mrv_loop b ps (mrv, curr_mrv)
                else if remain_val = c then mrv_loop b ps (mrv @ [p], curr_mrv)
                else mrv_loop b ps ([p], Some remain_val)))"

text \<open>The degree loop: the state is \<open>selected\<close> and \<open>selected_deg\<close>.\<close>

fun degree_loop :: "board \<Rightarrow> position list \<Rightarrow> position option \<times> nat \<Rightarrow> position option \<times> nat" where
  "degree_loop b [] st = st"
| "degree_loop b ((i, j) # ps) (selected, selected_deg) =
     (let degree = unassigned_neighbors_count b i j in
      case selected of
        None \<Rightarrow> degree_loop b ps (Some (i, j), degree)
      | Some s \<Rightarrow>
          if degree > selected_deg then degree_loop b ps (Some (i, j), degree)
          else degree_loop b ps (selected, selected_deg))"

definition select_variable :: "board \<Rightarrow> position option" where
  "select_variable b = fst (degree_loop b (fst (mrv_loop b all_positions ([], None))) (None, 0))"

section \<open>Backtracking search\<close>

text \<open>
  \<open>backtrack\<close> returns the board (the first component is True; the board is the
  second) or False; in both cases the second component is the board as the call leaves
  it. The first argument bounds the depth of the recursion: \<open>None\<close> is a search that
  needs a deeper recursion. \<open>try_values\<close> is the loop over \<open>val\<close>.
\<close>

fun backtrack :: "nat \<Rightarrow> board \<Rightarrow> (py_error + bool \<times> board) option"
  and try_values :: "nat \<Rightarrow> board \<Rightarrow> position \<Rightarrow> int list \<Rightarrow> (py_error + bool \<times> board) option" where
  "backtrack 0 b = None"
| "backtrack (Suc n) b =
     (if assignment_complete b then Some (Inr (True, b))
      else (case select_variable b of
              None \<Rightarrow> Some (Inl TypeError)
            | Some var \<Rightarrow> try_values n b var (map int [1..<length (domain (cell b var)) + 1])))"
| "try_values n b var [] = Some (Inr (False, b))"
| "try_values n b var (val # vals) =
     (case py_getitem (domain (cell b var)) (val - 1) of
        Inl e \<Rightarrow> Some (Inl e)
      | Inr flag \<Rightarrow>
          if flag = 0 then try_values n b var vals
          else (case forward_check (set_value b var val) (fst var) (snd var) of
                  Inl e \<Rightarrow> Some (Inl e)
                | Inr (consistent, original, b') \<Rightarrow>
                    if consistent then
                      (case backtrack n b' of
                         None \<Rightarrow> None
                       | Some (Inl e) \<Rightarrow> Some (Inl e)
                       | Some (Inr (result, b'')) \<Rightarrow>
                           if result then Some (Inr (True, b''))
                           else try_values n (set_value (remove_inferences b'' original) var 0) var vals)
                    else try_values n (set_value (remove_inferences b' original) var 0) var vals))"

text \<open>
  The recursion is at most as deep as the number of unassigned cells (at most 81), plus
  the call that finds the board complete.
\<close>

definition backtracking_search :: "board \<Rightarrow> (py_error + bool \<times> board) option" where
  "backtracking_search b = backtrack (NUM_ROWS * NUM_COLS + 1) b"

definition in_grid :: "position \<Rightarrow> bool" where
  "in_grid p = (fst p < NUM_ROWS \<and> snd p < NUM_COLS)"

definition board_shape :: "board \<Rightarrow> bool" where
  "board_shape b = (length b = NUM_ROWS \<and> list_all (\<lambda>row. length row = NUM_COLS) b)"

definition peers :: "nat \<Rightarrow> nat \<Rightarrow> position list" where
  "peers ivar jvar = row_positions ivar jvar @ col_positions ivar jvar @ box_positions ivar jvar"

definition dots_of :: "board \<Rightarrow> (string \<times> string \<times> string \<times> string) list list" where
  "dots_of b = map (map (\<lambda>var. (up var, down var, left var, right var))) b"

definition shrunk :: "int list \<Rightarrow> int list \<Rightarrow> bool" where
  "shrunk d d' = (length d' = length d \<and> (\<forall>k<length d. d' ! k = d ! k \<or> d' ! k = 0))"

definition pruned :: "position set \<Rightarrow> board \<Rightarrow> board \<Rightarrow> bool" where
  "pruned S b b' =
     (board_shape b' \<and>
      (\<forall>p. in_grid p \<longrightarrow>
         cell b' p = (cell b p)\<lparr>domain := domain (cell b' p)\<rparr>
         \<and> shrunk (domain (cell b p)) (domain (cell b' p))
         \<and> (p \<notin> S \<longrightarrow> cell b' p = cell b p)))"

text \<open>The seven blocks of the second pass of \<open>forward_check\<close>, run in sequence.\<close>

fun run_steps :: "(board \<Rightarrow> py_error + bool \<times> board) list \<Rightarrow> board \<Rightarrow> py_error + bool \<times> board" where
  "run_steps [] b = Inr (True, b)"
| "run_steps (f # fs) b = and_then (f b) (run_steps fs)"

definition fc_steps :: "int \<Rightarrow> nat \<Rightarrow> nat \<Rightarrow> (board \<Rightarrow> py_error + bool \<times> board) list" where
  "fc_steps valint ivar jvar =
     [\<lambda>b. prune_loop b valint (row_positions ivar jvar),
      \<lambda>b. prune_loop b valint (col_positions ivar jvar),
      \<lambda>b. prune_loop b valint (box_positions ivar jvar),
      \<lambda>b. dot_prune b (up (cell b (ivar, jvar))) (int ivar - 1) (int jvar) valint,
      \<lambda>b. dot_prune b (down (cell b (ivar, jvar))) (int ivar + 1) (int jvar) valint,
      \<lambda>b. dot_prune b (left (cell b (ivar, jvar))) (int ivar) (int jvar - 1) valint,
      \<lambda>b. dot_prune b (right (cell b (ivar, jvar))) (int ivar) (int jvar + 1) valint]"

definition open_peers :: "board \<Rightarrow> nat \<Rightarrow> nat \<Rightarrow> position set" where
  "open_peers b i j = {p \<in> set (peers i j). \<not> assigned (cell b p)}"

definition dot_types :: "string list" where
  "dot_types = [''0'', ''1'', ''2'']"

definition wf_board :: "board \<Rightarrow> bool" where
  "wf_board b =
     (board_shape b \<and>
      list_all (\<lambda>(i, j). let var = cell b (i, j) in
          0 \<le> value var \<and> value var \<le> 9 \<and> length (domain var) = 9
        \<and> up var \<in> set dot_types \<and> down var \<in> set dot_types
        \<and> left var \<in> set dot_types \<and> right var \<in> set dot_types
        \<and> up var = (if i = 0 then ''0'' else down (cell b (i - 1, j)))
        \<and> down var = (if i = 8 then ''0'' else up (cell b (i + 1, j)))
        \<and> left var = (if j = 0 then ''0'' else right (cell b (i, j - 1)))
        \<and> right var = (if j = 8 then ''0'' else left (cell b (i, j + 1)))) all_positions)"

text \<open>Row-major scan order of the positions.\<close>

definition scan_le :: "position \<Rightarrow> position \<Rightarrow> bool" where
  "scan_le p q = (fst p < fst q \<or> (fst p = fst q \<and> snd p \<le> snd q))"

definition scan_less :: "position \<Rightarrow> position \<Rightarrow> bool" where
  "scan_less p q = (fst p < fst q \<or> (fst p = fst q \<and> snd p < snd q))"

definition degree :: "board \<Rightarrow> position \<Rightarrow> nat" where
  "degree b p = unassigned_neighbors_count b (fst p) (snd p)"

definition open_cells :: "board \<Rightarrow> position list \<Rightarrow> position list" where
  "open_cells b ps = filter (\<lambda>p. \<not> assigned (cell b p)) ps"

subsection \<open>Neighbours are the other cells of the row, the column and the box\<close>

definition same_unit :: "position \<Rightarrow> position \<Rightarrow> bool" where
  "same_unit p q = (fst p = fst q \<or> snd p = snd q
     \<or> (fst p div 3 = fst q div 3 \<and> snd p div 3 = snd q div 3))"

text \<open>
  The construction of the board in \<open>parse_file\<close>, for a file already split into
  tokens: the nine lines of values, the lines of horizontal dots and the lines of
  vertical dots. A missing line is an empty line.
\<close>

definition new_variable :: "int \<Rightarrow> variable" where
  "new_variable v = \<lparr>value = v, domain = DOMAIN, up = ''0'', down = ''0'', left = ''0'', right = ''0''\<rparr>"

definition line_at :: "'a list list \<Rightarrow> nat \<Rightarrow> 'a list" where
  "line_at lines i = (if i < length lines then lines ! i else [])"

fun horizontal_dots :: "board \<Rightarrow> string list list \<Rightarrow> position list \<Rightarrow> py_error + board" where
  "horizontal_dots b toks [] = Inr b"
| "horizontal_dots b toks ((i, j) # ps) =
     (if j < length (line_at toks i) \<and> line_at toks i ! j \<noteq> ''0'' then
        (if i < length b \<and> j + 1 < length (b ! i) then
           horizontal_dots
             (let b' = set_cell b (i, j) ((cell b (i, j))\<lparr>right := line_at toks i ! j\<rparr>)
              in set_cell b' (i, j + 1) ((cell b' (i, j + 1))\<lparr>left := line_at toks i ! j\<rparr>)) toks ps
         else Inl IndexError)
      else horizontal_dots b toks ps)"

fun vertical_dots :: "board \<Rightarrow> string list list \<Rightarrow> position list \<Rightarrow> py_error + board" where
  "vertical_dots b toks [] = Inr b"
| "vertical_dots b toks ((i, j) # ps) =
     (if j < length (line_at toks i) \<and> line_at toks i ! j \<noteq> ''0'' then
        (if i + 1 < length b \<and> j < length (b ! i) \<and> j < length (b ! (i + 1)) then
           vertical_dots
             (let b' = set_cell b (i, j) ((cell b (i, j))\<lparr>down := line_at toks i ! j\<rparr>)
              in set_cell b' (i + 1, j) ((cell b' (i + 1, j))\<lparr>up := line_at toks i ! j\<rparr>)) toks ps
         else Inl IndexError)
      else vertical_dots b toks ps)"

text \<open>\<open>update_neighbors\<close>: the blocks of \<open>forward_check\<close> without the test for an empty domain.\<close>

fun clear_loop :: "board \<Rightarrow> int \<Rightarrow> position list \<Rightarrow> py_error + board" where
  "clear_loop b valint [] = Inr b"
| "clear_loop b valint (p # ps) =
     (if assigned (cell b p) then clear_loop b valint ps
      else (case py_setitem (domain (cell b p)) (valint - 1) 0 of
              Inl e \<Rightarrow> Inl e
            | Inr d \<Rightarrow> clear_loop (set_domain b p d) valint ps))"

definition dot_update :: "board \<Rightarrow> string \<Rightarrow> int \<Rightarrow> int \<Rightarrow> int \<Rightarrow> py_error + board" where
  "dot_update b dot ni nj valint =
     (if dot \<noteq> ''0'' then
        (case locate b ni nj of
           None \<Rightarrow> Inl IndexError
         | Some p \<Rightarrow>
             (if \<not> assigned (cell b p) then
                (case dot_remains dot valint of
                   Inl e \<Rightarrow> Inl e
                 | Inr remain \<Rightarrow> Inr (set_domain b p (restrict_domain (domain (cell b p)) remain)))
              else Inr b))
      else Inr b)"

definition seq :: "py_error + board \<Rightarrow> (board \<Rightarrow> py_error + board) \<Rightarrow> py_error + board" where
  "seq r f = (case r of Inl e \<Rightarrow> Inl e | Inr b \<Rightarrow> f b)"

definition update_neighbors :: "board \<Rightarrow> nat \<Rightarrow> nat \<Rightarrow> py_error + board" where
  "update_neighbors b ivar jvar =
     (let valint = value (cell b (ivar, jvar)) in
      seq (seq (seq (seq (seq (seq
        (clear_loop b valint (row_positions ivar jvar))
        (\<lambda>b. clear_loop b valint (col_positions ivar jvar)))
        (\<lambda>b. clear_loop b valint (box_positions ivar jvar)))
        (\<lambda>b. dot_update b (up (cell b (ivar, jvar))) (int ivar - 1) (int jvar) valint))
        (\<lambda>b. dot_update b (down (cell b (ivar, jvar))) (int ivar + 1) (int jvar) valint))
        (\<lambda>b. dot_update b (left (cell b (ivar, jvar))) (int ivar) (int jvar - 1) valint))
        (\<lambda>b. dot_update b (right (cell b (ivar, jvar))) (int ivar) (int jvar + 1) valint))"

fun initial_sweep :: "board \<Rightarrow> position list \<Rightarrow> py_error + board" where
  "initial_sweep b [] = Inr b"
| "initial_sweep b ((i, j) # ps) =
     (if \<not> assigned (cell b (i, j)) then initial_sweep b ps
      else (case update_neighbors b i j of Inl e \<Rightarrow> Inl e | Inr b' \<Rightarrow> initial_sweep b' ps))"

definition parse_board :: "int list list \<Rightarrow> string list list \<Rightarrow> string list list \<Rightarrow> py_error + board" where
  "parse_board vals hdots vdots =
     (let b = map (\<lambda>i. map new_variable (line_at vals i)) [0..<NUM_ROWS] in
      seq (seq (horizontal_dots b hdots all_positions)
        (\<lambda>b. vertical_dots b vdots (filter (\<lambda>(i, j). i < NUM_ROWS - 1) all_positions)))
        (\<lambda>b. initial_sweep b all_positions))"

definition example_values :: "int list list" where
  "example_values =
    [[1, 2, 0, 4, 5, 0, 7, 8, 9],
     [4, 5, 0, 7, 8, 0, 1, 2, 3],
     [7, 8, 0, 1, 2, 0, 4, 5, 6],
     [2, 3, 4, 5, 6, 7, 8, 9, 1],
     [5, 6, 7, 8, 9, 1, 2, 3, 4],
     [8, 9, 1, 2, 3, 4, 5, 6, 7],
     [3, 4, 5, 6, 7, 8, 9, 1, 2],
     [6, 7, 8, 9, 1, 2, 3, 4, 5],
     [9, 1, 2, 3, 4, 5, 6, 7, 8]]"

definition example_hdots :: "string list list" where
  "example_hdots = (replicate 9 (replicate 8 ''0''))[3 := [''1'', ''0'', ''0'', ''0'', ''0'', ''0'', ''0'', ''0'']]"

definition example_vdots :: "string list list" where
  "example_vdots = (replicate 8 (replicate 9 ''0''))
     [0 := [''0'', ''0'', ''0'', ''0'', ''0'', ''2'', ''0'', ''0'', ''0''],
      2 := [''0'', ''0'', ''0'', ''0'', ''0'', ''0'', ''2'', ''0'', ''0'']]"

definition example_board :: board where
  "example_board =
    [[new_variable 1, new_variable 2,
      \<lparr>value = 0, domain = [0, 0, 1, 0, 0, 1, 0, 0, 0], up = ''0'', down = ''0'', left = ''0'', right = ''0''\<rparr>,
      new_variable 4, new_variable 5,
      \<lparr>value = 0, domain = [0, 0, 1, 0, 0, 1, 0, 0, 0], up = ''0'', down = ''2'', left = ''0'', right = ''0''\<rparr>,
      new_variable 7, new_variable 8, new_variable 9],
     [new_variable 4, new_variable 5,
      \<lparr>value = 0, domain = [0, 0, 0, 0, 0, 1, 0, 0, 1], up = ''0'', down = ''0'', left = ''0'', right = ''0''\<rparr>,
      new_variable 7, new_variable 8,
      \<lparr>value = 0, domain = [0, 0, 0, 0, 0, 1, 0, 0, 1], up = ''2'', down = ''0'', left = ''0'', right = ''0''\<rparr>,
      new_variable 1, new_variable 2, new_variable 3],
     [new_variable 7, new_variable 8,
      \<lparr>value = 0, domain = [0, 0, 1, 0, 0, 0, 0, 0, 1], up = ''0'', down = ''0'', left = ''0'', right = ''0''\<rparr>,
      new_variable 1, new_variable 2,
      \<lparr>value = 0, domain = [0, 0, 1, 0, 0, 0, 0, 0, 1], up = ''0'', down = ''0'', left = ''0'', right = ''0''\<rparr>,
      \<lparr>value = 4, domain = [1, 1, 1, 1, 1, 1, 1, 1, 1], up = ''0'', down = ''2'', left = ''0'', right = ''0''\<rparr>,
      new_variable 5, new_variable 6],
     [\<lparr>value = 2, domain = [1, 1, 1, 1, 1, 1, 1, 1, 1], up = ''0'', down = ''0'', left = ''0'', right = ''1''\<rparr>,
      \<lparr>value = 3, domain = [1, 1, 1, 1, 1, 1, 1, 1, 1], up = ''0'', down = ''0'', left = ''1'', right = ''0''\<rparr>,
      new_variable 4, new_variable 5, new_variable 6, new_variable 7,
      \<lparr>value = 8, domain = [1, 1, 1, 1, 1, 1, 1, 1, 1], up = ''2'', down = ''0'', left = ''0'', right = ''0''\<rparr>,
      new_variable 9, new_variable 1],
     [new_variable 5, new_variable 6, new_variable 7, new_variable 8, new_variable 9, new_variable 1, new_variable 2, new_variable 3, new_variable 4],
     [new_variable 8, new_variable 9, new_variable 1, new_variable 2, new_variable 3, new_variable 4, new_variable 5, new_variable 6, new_variable 7],
     [new_variable 3, new_variable 4, new_variable 5, new_variable 6, new_variable 7, new_variable 8, new_variable 9, new_variable 1, new_variable 2],
     [new_variable 6, new_variable 7, new_variable 8, new_variable 9, new_variable 1, new_variable 2, new_variable 3, new_variable 4, new_variable 5],
     [new_variable 9, new_variable 1, new_variable 2, new_variable 3, new_variable 4, new_variable 5, new_variable 6, new_variable 7, new_variable 8]]"

section \<open>Dot candidates\<close>

text \<open>
  C3. For every neighbour value \<open>v\<close> from 1 to 9, \<open>dot_remains\<close> returns (without
  raising) for a white dot the values \<open>v - 1\<close>, \<open>v + 1\<close> that lie in 1..9, and for a
  black dot \<open>v div 2\<close> and \<open>2 v\<close> when \<open>v\<close> is even and at most 4, \<open>v div 2\<close> alone
  when \<open>v\<close> is even and above 4, \<open>2 v\<close> alone when \<open>v\<close> is odd and at most 3, and
  nothing when \<open>v\<close> is odd and above 3.
\<close>

theorem dot_remains_candidates:
  assumes "1 \<le> v" and "v \<le> 9"
  shows "\<exists>ws bs. dot_remains ''1'' v = Inr ws \<and> set ws = {v - 1, v + 1} \<inter> {1..9}
           \<and> dot_remains ''2'' v = Inr bs
           \<and> set bs = (if even v \<and> v \<le> 4 then {v div 2, v * 2}
                        else if even v \<and> v > 4 then {v div 2}
                        else if odd v \<and> v \<le> 3 then {v * 2}
                        else {})"
proof -
  have white: "\<exists>ws. dot_remains ''1'' v = Inr ws \<and> set ws = {v - 1, v + 1} \<inter> {1..9}"
    using assms by (auto simp: dot_remains_def)
  have black: "\<exists>bs. dot_remains ''2'' v = Inr bs
           \<and> set bs = (if even v \<and> v \<le> 4 then {v div 2, v * 2}
                        else if even v \<and> v > 4 then {v div 2}
                        else if odd v \<and> v \<le> 3 then {v * 2}
                        else {})"
    using assms by (auto simp: dot_remains_def even_iff_mod_2_eq_zero odd_iff_mod_2_eq_one)
  from white black show ?thesis by blast
qed

theorem dot_remains_candidates_witness:
  "dot_remains ''1'' 1 = Inr [2] \<and> dot_remains ''1'' 9 = Inr [8]
   \<and> (\<exists>ws bs. dot_remains ''1'' 4 = Inr ws \<and> set ws = {3, 5}
          \<and> dot_remains ''2'' 4 = Inr bs \<and> set bs = {2, 8})"
proof -
  have "(1::int) \<le> 4" and "(4::int) \<le> 9" by simp_all
  from dot_remains_candidates[OF this]
  have "\<exists>ws bs. dot_remains ''1'' 4 = Inr ws \<and> set ws = {3, 5}
          \<and> dot_remains ''2'' 4 = Inr bs \<and> set bs = {2, 8}"
    by (simp add: insert_commute)
  moreover have "dot_remains ''1'' 1 = Inr [2]" "dot_remains ''1'' 9 = Inr [8]"
    by (simp_all add: dot_remains_def)
  ultimately show ?thesis by simp
qed

lemma set_all_positions: "set all_positions = {p. in_grid p}"
  by (auto simp: all_positions_def in_grid_def)

lemma board_shape_row: "board_shape b \<Longrightarrow> i < 9 \<Longrightarrow> length (b ! i) = 9"
  by (simp add: board_shape_def list_all_length)

lemma cell_set_cell:
  assumes "board_shape b" "in_grid p"
  shows "cell (set_cell b p var) q = (if q = p then var else cell b q)"
proof (cases "q = p")
  case True
  with assms show ?thesis
    by (simp add: cell_def set_cell_def in_grid_def board_shape_row board_shape_def)
next
  case False
  show ?thesis
  proof (cases "fst q = fst p")
    case True
    with False have "snd q \<noteq> snd p" by (auto simp: prod_eq_iff)
    with True False assms show ?thesis
      by (simp add: cell_def set_cell_def in_grid_def board_shape_def)
  next
    case neq: False
    with False show ?thesis by (simp add: cell_def set_cell_def)
  qed
qed

lemma board_shape_set_cell: "board_shape b \<Longrightarrow> board_shape (set_cell b p var)"
proof (cases "fst p < length b")
  case True
  assume "board_shape b"
  with True show ?thesis
    by (auto simp: board_shape_def set_cell_def list_all_length nth_list_update)
next
  case False
  assume "board_shape b"
  with False show ?thesis by (simp add: set_cell_def list_update_beyond)
qed

lemma board_shape_set_domain: "board_shape b \<Longrightarrow> board_shape (set_domain b p d)"
  by (simp add: set_domain_def board_shape_set_cell)

lemma board_shape_set_value: "board_shape b \<Longrightarrow> board_shape (set_value b p v)"
  by (simp add: set_value_def board_shape_set_cell)

lemma cell_set_domain:
  "board_shape b \<Longrightarrow> in_grid p \<Longrightarrow>
   cell (set_domain b p d) q = (if q = p then (cell b p)\<lparr>domain := d\<rparr> else cell b q)"
  by (simp add: set_domain_def cell_set_cell)

lemma cell_set_value:
  "board_shape b \<Longrightarrow> in_grid p \<Longrightarrow>
   cell (set_value b p v) q = (if q = p then (cell b p)\<lparr>value := v\<rparr> else cell b q)"
  by (simp add: set_value_def cell_set_cell)

lemma board_ext:
  assumes "board_shape b" "board_shape b'" "\<And>p. in_grid p \<Longrightarrow> cell b p = cell b' p"
  shows "b = b'"
proof (rule nth_equalityI)
  show "length b = length b'" using assms by (simp add: board_shape_def)
next
  fix i assume i: "i < length b"
  then have i9: "i < 9" using assms(1) by (simp add: board_shape_def)
  show "b ! i = b' ! i"
  proof (rule nth_equalityI)
    show "length (b ! i) = length (b' ! i)"
      using assms i9 by (simp add: board_shape_row)
  next
    fix j assume "j < length (b ! i)"
    then have "j < 9" using assms(1) i9 by (simp add: board_shape_row)
    with i9 have "in_grid (i, j)" by (simp add: in_grid_def)
    from assms(3)[OF this] show "b ! i ! j = b' ! i ! j" by (simp add: cell_def)
  qed
qed

lemma set_cell_same: "board_shape b \<Longrightarrow> set_cell b p (cell b p) = b"
  by (simp add: set_cell_def cell_def)

subsection \<open>Neighbours\<close>


lemma set_row_positions: "set (row_positions i j) = {(k, l). k = i \<and> l < 9 \<and> l \<noteq> j}"
  by (auto simp: row_positions_def)

lemma set_col_positions: "set (col_positions i j) = {(k, l). l = j \<and> k < 9 \<and> k \<noteq> i}"
  by (auto simp: col_positions_def)

lemma div3_cases: "(k = (i::nat) div 3 * 3 \<or> k = i div 3 * 3 + 1 \<or> k = i div 3 * 3 + 2) = (k div 3 = i div 3)"
proof
  assume "k = i div 3 * 3 \<or> k = i div 3 * 3 + 1 \<or> k = i div 3 * 3 + 2"
  then show "k div 3 = i div 3" by auto
next
  assume h: "k div 3 = i div 3"
  have aux: "\<And>q r. k = q * 3 + r \<Longrightarrow> r < 3 \<Longrightarrow> k = q * 3 \<or> k = q * 3 + 1 \<or> k = q * 3 + 2"
    by auto
  have "k = k div 3 * 3 + k mod 3" by simp
  with h have "k = i div 3 * 3 + k mod 3" by simp
  moreover have "k mod 3 < 3" by simp
  ultimately show "k = i div 3 * 3 \<or> k = i div 3 * 3 + 1 \<or> k = i div 3 * 3 + 2"
    by (rule aux)
qed

lemma in_box_indexes:
  "((k, l) \<in> set (box_indexes i j)) = (k div 3 = i div 3 \<and> l div 3 = j div 3)"
proof -
  have "((k, l) \<in> set (box_indexes i j)) =
      ((k = i div 3 * 3 \<or> k = i div 3 * 3 + 1 \<or> k = i div 3 * 3 + 2)
       \<and> (l = j div 3 * 3 \<or> l = j div 3 * 3 + 1 \<or> l = j div 3 * 3 + 2))"
    unfolding box_indexes_def Let_def by simp blast
  then show ?thesis by (simp only: div3_cases)
qed

lemma in_box_positions:
  "((k, l) \<in> set (box_positions i j)) = (k div 3 = i div 3 \<and> l div 3 = j div 3 \<and> k \<noteq> i \<and> l \<noteq> j)"
  by (simp add: box_positions_def in_box_indexes)

lemma in_row_positions: "((k, l) \<in> set (row_positions i j)) = (k = i \<and> l < 9 \<and> l \<noteq> j)"
  by (simp add: set_row_positions)

lemma in_col_positions: "((k, l) \<in> set (col_positions i j)) = (l = j \<and> k < 9 \<and> k \<noteq> i)"
  by (simp add: set_col_positions)

lemma in_peers:
  "((k, l) \<in> set (peers i j)) = ((k = i \<and> l < 9 \<and> l \<noteq> j) \<or> (l = j \<and> k < 9 \<and> k \<noteq> i)
      \<or> (k div 3 = i div 3 \<and> l div 3 = j div 3 \<and> k \<noteq> i \<and> l \<noteq> j))"
  by (simp add: peers_def in_row_positions in_col_positions in_box_positions)

lemma div3_lt9:
  assumes "x div 3 = i div 3" "i < 9"
  shows "x < (9::nat)"
proof -
  from assms(2) have "i div 3 < 3" by (simp add: div_less_iff_less_mult)
  with assms(1) have "x div 3 < 3" by simp
  then show ?thesis by (simp add: div_less_iff_less_mult)
qed

lemma peers_in_grid:
  assumes "i < 9" "j < 9" "p \<in> set (peers i j)"
  shows "in_grid p"
proof -
  obtain k l where p: "p = (k, l)" by (cases p)
  from assms(3) have "k < 9 \<and> l < 9"
    unfolding p in_peers using assms(1,2) div3_lt9 by blast
  then show ?thesis by (simp add: p in_grid_def)
qed

lemma self_not_peer: "(i, j) \<notin> set (peers i j)"
  by (simp add: in_peers)

lemma peers_sym:
  assumes "i < 9" "j < 9" "(k, l) \<in> set (peers i j)"
  shows "(i, j) \<in> set (peers k l)"
  using assms unfolding in_peers by metis

subsection \<open>Python indexing on a 9 x 9 board\<close>


lemma py_index_pred:
  assumes "i < 9" "py_index 9 (int i - 1) = Some k"
  shows "k < 9 \<and> k \<noteq> i"
  using assms by (auto simp: py_index_def split: if_splits)

lemma py_index_succ:
  assumes "i < 9" "py_index 9 (int i + 1) = Some k"
  shows "k = i + 1 \<and> i + 1 < 9"
  using assms by (auto simp: py_index_def split: if_splits)

lemma py_index_same:
  assumes "i < 9"
  shows "py_index 9 (int i) = Some i"
  using assms by (simp add: py_index_def)

lemma locate_Some:
  assumes "board_shape b" "locate b ni nj = Some p"
  shows "py_index 9 ni = Some (fst p) \<and> py_index 9 nj = Some (snd p)"
proof -
  from assms obtain k where k: "py_index 9 ni = Some k"
    by (auto simp: locate_def board_shape_def split: option.splits)
  then have "k < 9" by (auto simp: py_index_def split: if_splits)
  with assms(1) have "length (b ! k) = 9" by (rule board_shape_row)
  with assms k show ?thesis
    by (auto simp: locate_def board_shape_def split: option.splits)
qed

subsection \<open>The dot fields are never written\<close>

lemma map_update_same:
  assumes "f v = f (xs ! j)"
  shows "map f (xs[j := v]) = map f xs"
proof (cases "j < length xs")
  case True
  have "map f (xs[j := v]) = (map f xs)[j := f v]" by (simp add: map_update)
  also have "\<dots> = (map f xs)[j := (map f xs) ! j]" using True assms by simp
  also have "\<dots> = map f xs" by simp
  finally show ?thesis .
next
  case False
  then show ?thesis by (simp add: list_update_beyond)
qed

lemma dots_of_set_cell:
  assumes "up var = up (cell b p)" "down var = down (cell b p)"
    "left var = left (cell b p)" "right var = right (cell b p)"
  shows "dots_of (set_cell b p var) = dots_of b"
proof -
  let ?f = "\<lambda>var. (up var, down var, left var, right var)"
  have row: "map ?f ((b ! fst p)[snd p := var]) = map ?f (b ! fst p)"
    by (rule map_update_same) (use assms in \<open>simp add: cell_def\<close>)
  show ?thesis
    unfolding dots_of_def set_cell_def
    by (rule map_update_same) (rule row)
qed

lemma dots_of_set_domain: "dots_of (set_domain b p d) = dots_of b"
  unfolding set_domain_def by (rule dots_of_set_cell) simp_all

lemma dots_of_set_value: "dots_of (set_value b p v) = dots_of b"
  unfolding set_value_def by (rule dots_of_set_cell) simp_all

lemma dots_of_remove_inferences: "dots_of (remove_inferences b original) = dots_of b"
  by (induction b original rule: remove_inferences.induct) (simp_all add: dots_of_set_domain)

lemma prune_loop_Cons_cases:
  assumes "prune_loop b valint (p # ps) = Inr (c, b')"
  obtains (skip) "assigned (cell b p)" "prune_loop b valint ps = Inr (c, b')"
  | (wiped) d where "\<not> assigned (cell b p)" "py_setitem (domain (cell b p)) (valint - 1) 0 = Inr d"
      "remaining_value_count (cell (set_domain b p d) p) = 0" "c = False" "b' = set_domain b p d"
  | (step) d where "\<not> assigned (cell b p)" "py_setitem (domain (cell b p)) (valint - 1) 0 = Inr d"
      "remaining_value_count (cell (set_domain b p d) p) \<noteq> 0"
      "prune_loop (set_domain b p d) valint ps = Inr (c, b')"
  using assms by (auto simp: Let_def split: if_splits sum.splits)

lemma dot_prune_cases:
  assumes "dot_prune b dot ni nj valint = Inr (c, b')"
  obtains (none) "c" "b' = b"
  | (restricted) p remain where "dot \<noteq> ''0''" "locate b ni nj = Some p" "\<not> assigned (cell b p)"
      "dot_remains dot valint = Inr remain"
      "b' = set_domain b p (restrict_domain (domain (cell b p)) remain)"
      "c = (remaining_value_count (cell b' p) \<noteq> 0)"
proof (cases "dot = ''0''")
  case True
  with assms have "c" "b' = b" by (simp_all add: dot_prune_def)
  then show ?thesis by (rule none)
next
  case dot: False
  show ?thesis
  proof (cases "locate b ni nj")
    case None
    with dot assms show ?thesis by (simp add: dot_prune_def)
  next
    case (Some p)
    show ?thesis
    proof (cases "assigned (cell b p)")
      case True
      with dot Some assms have "c" "b' = b" by (simp_all add: dot_prune_def)
      then show ?thesis by (rule none)
    next
      case unassigned: False
      show ?thesis
      proof (cases "dot_remains dot valint")
        case (Inl e)
        with dot Some unassigned assms show ?thesis by (simp add: dot_prune_def)
      next
        case (Inr remain)
        let ?b = "set_domain b p (restrict_domain (domain (cell b p)) remain)"
        from dot Some unassigned Inr assms
        have "b' = ?b" "c = (remaining_value_count (cell ?b p) \<noteq> 0)"
          by (auto simp: dot_prune_def Let_def split: if_splits)
        with dot Some unassigned Inr show ?thesis by (intro restricted) simp_all
      qed
    qed
  qed
qed

lemma dots_of_prune_loop:
  "prune_loop b valint ps = Inr (c, b') \<Longrightarrow> dots_of b' = dots_of b"
proof (induction ps arbitrary: b)
  case Nil
  then show ?case by simp
next
  case (Cons p ps)
  from Cons.prems show ?case
  proof (cases rule: prune_loop_Cons_cases)
    case skip
    then show ?thesis using Cons.IH by simp
  next
    case (wiped d)
    then show ?thesis by (simp add: dots_of_set_domain)
  next
    case (step d)
    from Cons.IH[OF this(4)] show ?thesis by (simp add: dots_of_set_domain)
  qed
qed

lemma dots_of_dot_prune:
  "dot_prune b dot ni nj valint = Inr (c, b') \<Longrightarrow> dots_of b' = dots_of b"
  by (erule dot_prune_cases) (simp_all add: dots_of_set_domain)

lemma and_then_assoc: "and_then (and_then r f) g = and_then r (\<lambda>b. and_then (f b) g)"
  by (auto simp: and_then_def split: sum.splits)

lemma and_then_unit: "and_then r (\<lambda>b. Inr (True, b)) = r"
  by (auto simp: and_then_def split: sum.splits)

lemma forward_steps_run:
  "forward_steps b ivar jvar = run_steps (fc_steps (value (cell b (ivar, jvar))) ivar jvar) b"
proof -
  have unit: "run_steps [] = (\<lambda>b. Inr (True, b))" by (rule ext) simp
  have cons: "\<And>f fs. run_steps (f # fs) = (\<lambda>b. and_then (f b) (run_steps fs))" by (rule ext) simp
  show ?thesis
    unfolding forward_steps_def fc_steps_def Let_def
    by (simp only: and_then_assoc cons unit and_then_unit)
qed

lemma run_steps_invariant:
  assumes "run_steps fs b = Inr (c, b')" and "P b"
    and "\<And>f b1 c2 b2. f \<in> set fs \<Longrightarrow> P b1 \<Longrightarrow> f b1 = Inr (c2, b2) \<Longrightarrow> P b2"
  shows "P b'"
  using assms
proof (induction fs arbitrary: b)
  case Nil
  then show ?case by simp
next
  case (Cons f fs)
  from Cons.prems(1) obtain c1 b1 where f: "f b = Inr (c1, b1)"
    by (auto simp: and_then_def split: sum.splits)
  have "f \<in> set (f # fs)" by simp
  from Cons.prems(3)[OF this Cons.prems(2) f] have b1: "P b1" .
  show ?case
  proof (cases c1)
    case True
    with f Cons.prems(1) have rest: "run_steps fs b1 = Inr (c, b')" by (simp add: and_then_def)
    have step: "P b3" if "g \<in> set fs" "P b2" "g b2 = Inr (c2, b3)" for g b2 c2 b3
      using Cons.prems(3)[of g b2 c2 b3] that by simp
    from Cons.IH[OF rest b1 step] show ?thesis .
  next
    case False
    with f Cons.prems(1) have "b' = b1" by (simp add: and_then_def)
    with b1 show ?thesis by simp
  qed
qed





lemma dots_of_forward_steps:
  assumes "forward_steps b ivar jvar = Inr (c, b')"
  shows "dots_of b' = dots_of b"
  using assms unfolding forward_steps_run
  by (rule run_steps_invariant[where P = "\<lambda>b1. dots_of b1 = dots_of b"])
    (auto simp: fc_steps_def dots_of_prune_loop dots_of_dot_prune)

lemma forward_check_Inr:
  assumes "forward_check b ivar jvar = Inr (c, original, b')"
  shows "forward_steps b ivar jvar = Inr (c, b')"
    and "original = save_domains b (peers ivar jvar)"
  using assms
  by (auto simp: forward_check_def Let_def peers_def save_domains_def split: sum.splits)

lemma dots_of_forward_check:
  "forward_check b ivar jvar = Inr (c, original, b') \<Longrightarrow> dots_of b' = dots_of b"
  by (drule forward_check_Inr(1)) (rule dots_of_forward_steps)

subsection \<open>Pruning changes only the domains of unassigned neighbours\<close>

lemma shrunk_refl: "shrunk d d"
  by (simp add: shrunk_def)

lemma shrunk_trans: "shrunk d d1 \<Longrightarrow> shrunk d1 d2 \<Longrightarrow> shrunk d d2"
  unfolding shrunk_def by (metis (no_types, lifting))

lemma py_index_less: "py_index n i = Some k \<Longrightarrow> k < n"
  by (auto simp: py_index_def split: if_splits)

lemma shrunk_py_setitem:
  assumes "py_setitem d i 0 = Inr d'"
  shows "shrunk d d'"
proof -
  from assms obtain x where x: "py_index (length d) i = Some x" "d' = d[x := 0]"
    by (auto simp: py_setitem_def split: option.splits)
  from x(1) have "x < length d" by (rule py_index_less)
  then show ?thesis by (simp add: x(2) shrunk_def nth_list_update)
qed

lemma shrunk_restrict_domain: "shrunk d (restrict_domain d remain)"
  by (simp add: shrunk_def restrict_domain_def)

lemma pruned_refl: "board_shape b \<Longrightarrow> pruned S b b"
  by (simp add: pruned_def shrunk_refl)

lemma pruned_cell:
  "pruned S b b' \<Longrightarrow> in_grid p \<Longrightarrow> cell b' p = (cell b p)\<lparr>domain := domain (cell b' p)\<rparr>"
  unfolding pruned_def by blast

lemma pruned_shrunk:
  "pruned S b b' \<Longrightarrow> in_grid p \<Longrightarrow> shrunk (domain (cell b p)) (domain (cell b' p))"
  unfolding pruned_def by blast

lemma pruned_outside: "pruned S b b' \<Longrightarrow> in_grid p \<Longrightarrow> p \<notin> S \<Longrightarrow> cell b' p = cell b p"
  unfolding pruned_def by blast

lemma pruned_shape: "pruned S b b' \<Longrightarrow> board_shape b'"
  by (simp add: pruned_def)

lemma pruned_trans:
  assumes "pruned S b b1" "pruned S b1 b2"
  shows "pruned S b b2"
  unfolding pruned_def
proof (intro conjI allI impI)
  show "board_shape b2" using assms(2) by (rule pruned_shape)
next
  fix p assume p: "in_grid p"
  note a = pruned_cell[OF assms(1) p] and c = pruned_cell[OF assms(2) p]
  show "cell b2 p = (cell b p)\<lparr>domain := domain (cell b2 p)\<rparr>"
    by (subst c, subst a) simp
  from pruned_shrunk[OF assms(1) p] pruned_shrunk[OF assms(2) p]
  show "shrunk (domain (cell b p)) (domain (cell b2 p))" by (rule shrunk_trans)
  assume "p \<notin> S"
  with pruned_outside[OF assms(1) p] pruned_outside[OF assms(2) p]
  show "cell b2 p = cell b p" by simp
qed

lemma pruned_mono: "pruned S b b' \<Longrightarrow> S \<subseteq> T \<Longrightarrow> pruned T b b'"
  unfolding pruned_def by blast

lemma pruned_fields:
  assumes "pruned S b b'" "in_grid p"
  shows "value (cell b' p) = value (cell b p)" "up (cell b' p) = up (cell b p)"
    "down (cell b' p) = down (cell b p)" "left (cell b' p) = left (cell b p)"
    "right (cell b' p) = right (cell b p)" "assigned (cell b' p) = assigned (cell b p)"
    "length (domain (cell b' p)) = length (domain (cell b p))"
proof -
  note a = pruned_cell[OF assms]
  show "value (cell b' p) = value (cell b p)" by (subst a) simp
  then show "assigned (cell b' p) = assigned (cell b p)" by (simp add: assigned_def)
  show "up (cell b' p) = up (cell b p)" by (subst a) simp
  show "down (cell b' p) = down (cell b p)" by (subst a) simp
  show "left (cell b' p) = left (cell b p)" by (subst a) simp
  show "right (cell b' p) = right (cell b p)" by (subst a) simp
  from pruned_shrunk[OF assms] show "length (domain (cell b' p)) = length (domain (cell b p))"
    by (simp add: shrunk_def)
qed

lemma pruned_set_domain:
  assumes "board_shape b" "in_grid p" "p \<in> S" "shrunk (domain (cell b p)) d"
  shows "pruned S b (set_domain b p d)"
  unfolding pruned_def
proof (intro conjI allI impI)
  show "board_shape (set_domain b p d)" using assms(1) by (rule board_shape_set_domain)
next
  fix q assume q: "in_grid q"
  note c = cell_set_domain[OF assms(1,2), of d q]
  show "cell (set_domain b p d) q = (cell b q)\<lparr>domain := domain (cell (set_domain b p d) q)\<rparr>"
    by (simp add: c)
  show "shrunk (domain (cell b q)) (domain (cell (set_domain b p d) q))"
    using assms(4) by (simp add: c shrunk_refl)
  assume "q \<notin> S"
  with assms(3) show "cell (set_domain b p d) q = cell b q" by (auto simp: c)
qed

lemma pruned_prune_loop:
  assumes "board_shape b" "\<forall>p\<in>set ps. in_grid p \<and> (\<not> assigned (cell b p) \<longrightarrow> p \<in> S)"
    and "prune_loop b valint ps = Inr (c, b')"
  shows "pruned S b b'"
  using assms
proof (induction ps arbitrary: b)
  case Nil
  then show ?case by (simp add: pruned_refl)
next
  case (Cons p ps)
  from Cons.prems(3) show ?case
  proof (cases rule: prune_loop_Cons_cases)
    case skip
    with Cons show ?thesis by simp
  next
    case (wiped d)
    with Cons.prems show ?thesis
      by (simp add: pruned_set_domain shrunk_py_setitem)
  next
    case (step d)
    let ?b = "set_domain b p d"
    from step Cons.prems have 1: "pruned S b ?b"
      by (simp add: pruned_set_domain shrunk_py_setitem)
    have "\<forall>q\<in>set ps. in_grid q \<and> (\<not> assigned (cell ?b q) \<longrightarrow> q \<in> S)"
      using Cons.prems(2) pruned_fields(6)[OF 1] by simp
    from Cons.IH[OF pruned_shape[OF 1] this step(4)] have "pruned S ?b b'" .
    with 1 show ?thesis by (rule pruned_trans)
  qed
qed

lemma pruned_dot_prune:
  assumes "board_shape b"
    and "\<And>p. locate b ni nj = Some p \<Longrightarrow> in_grid p \<and> (\<not> assigned (cell b p) \<longrightarrow> p \<in> S)"
    and "dot_prune b dot ni nj valint = Inr (c, b')"
  shows "pruned S b b'"
  using assms(3)
proof (cases rule: dot_prune_cases)
  case none
  with assms(1) show ?thesis by (simp add: pruned_refl)
next
  case (restricted p remain)
  with assms show ?thesis
    by (simp add: pruned_set_domain shrunk_restrict_domain)
qed

lemma locate_in_peers:
  assumes "board_shape b" "i < 9" "j < 9" "locate b ni nj = Some p"
    and "(ni = int i - 1 \<and> nj = int j) \<or> (ni = int i + 1 \<and> nj = int j)
       \<or> (ni = int i \<and> nj = int j - 1) \<or> (ni = int i \<and> nj = int j + 1)"
  shows "p \<in> set (peers i j)"
proof -
  obtain k l where p: "p = (k, l)" by (cases p)
  from locate_Some[OF assms(1,4)] have kl: "py_index 9 ni = Some k" "py_index 9 nj = Some l"
    by (simp_all add: p)
  from assms(5) have "(k = i \<and> l < 9 \<and> l \<noteq> j) \<or> (l = j \<and> k < 9 \<and> k \<noteq> i)"
  proof (elim disjE conjE)
    assume "ni = int i - 1" "nj = int j"
    with kl assms(2,3) py_index_pred[of i k] py_index_same[of j] show ?thesis by simp
  next
    assume "ni = int i + 1" "nj = int j"
    with kl assms(2,3) py_index_succ[of i k] py_index_same[of j] show ?thesis by simp
  next
    assume "ni = int i" "nj = int j - 1"
    with kl assms(2,3) py_index_pred[of j l] py_index_same[of i] show ?thesis by simp
  next
    assume "ni = int i" "nj = int j + 1"
    with kl assms(2,3) py_index_succ[of j l] py_index_same[of i] show ?thesis by simp
  qed
  then show ?thesis unfolding p in_peers by blast
qed

lemma fc_step_pruned:
  assumes "i < 9" "j < 9" "f \<in> set (fc_steps v i j)"
    and "pruned (open_peers b i j) b b1" "f b1 = Inr (c2, b2)"
  shows "pruned (open_peers b i j) b b2"
proof -
  let ?S = "open_peers b i j"
  note b1 = assms(4)
  have loop: "pruned ?S b b2"
    if "prune_loop b1 v ps = Inr (c2, b2)" "set ps \<subseteq> set (peers i j)" for ps
  proof -
    have "\<forall>p\<in>set ps. in_grid p \<and> (\<not> assigned (cell b1 p) \<longrightarrow> p \<in> ?S)"
      using that(2) assms(1,2) pruned_fields(6)[OF b1] peers_in_grid[of i j]
      by (auto simp: open_peers_def)
    from pruned_prune_loop[OF pruned_shape[OF b1] this that(1)] b1
    show ?thesis by (rule pruned_trans[rotated])
  qed
  have dot: "pruned ?S b b2"
    if "dot_prune b1 d ni nj v = Inr (c2, b2)"
      "(ni = int i - 1 \<and> nj = int j) \<or> (ni = int i + 1 \<and> nj = int j)
       \<or> (ni = int i \<and> nj = int j - 1) \<or> (ni = int i \<and> nj = int j + 1)"
    for d ni nj
  proof -
    have "in_grid p \<and> (\<not> assigned (cell b1 p) \<longrightarrow> p \<in> ?S)" if l: "locate b1 ni nj = Some p" for p
    proof -
      from locate_in_peers[OF pruned_shape[OF b1] assms(1,2) l \<open>_ \<or> _\<close>]
      have pp: "p \<in> set (peers i j)" .
      with assms(1,2) have g: "in_grid p" by (rule peers_in_grid)
      with pp pruned_fields(6)[OF b1 g] show ?thesis
        by (simp add: open_peers_def)
    qed
    from pruned_dot_prune[OF pruned_shape[OF b1] this that(1)] b1
    show ?thesis by (rule pruned_trans[rotated])
  qed
  from assms(3,5) consider ps where "prune_loop b1 v ps = Inr (c2, b2)"
      "set ps \<subseteq> set (peers i j)"
    | d ni nj where "dot_prune b1 d ni nj v = Inr (c2, b2)"
      "(ni = int i - 1 \<and> nj = int j) \<or> (ni = int i + 1 \<and> nj = int j)
       \<or> (ni = int i \<and> nj = int j - 1) \<or> (ni = int i \<and> nj = int j + 1)"
    unfolding fc_steps_def peers_def by auto
  then show ?thesis
  proof cases
    case 1
    from loop[OF this] show ?thesis .
  next
    case 2
    from dot[OF this] show ?thesis .
  qed
qed

lemma pruned_forward_steps:
  assumes "board_shape b" "i < 9" "j < 9" "forward_steps b i j = Inr (c, b')"
  shows "pruned (open_peers b i j) b b'"
  using assms(4) pruned_refl[OF assms(1)] unfolding forward_steps_run
  by (rule run_steps_invariant[where P = "\<lambda>b1. pruned (open_peers b i j) b b1"])
    (rule fc_step_pruned[OF assms(2,3)])

subsection \<open>Rollback\<close>

lemma cell_remove_inferences:
  assumes "board_shape b'" "\<forall>(p, d) \<in> set rec. in_grid p \<and> d = f p" "in_grid q"
  shows "board_shape (remove_inferences b' rec) \<and>
         cell (remove_inferences b' rec) q =
           (if q \<in> fst ` set rec then (cell b' q)\<lparr>domain := f q\<rparr> else cell b' q)"
  using assms
proof (induction rec arbitrary: b')
  case Nil
  then show ?case by simp
next
  case (Cons e rec)
  obtain p d where e: "e = (p, d)" by (cases e)
  from Cons.prems(2) have p: "in_grid p" "d = f p" and rest: "\<forall>(p, d) \<in> set rec. in_grid p \<and> d = f p"
    by (simp_all add: e)
  let ?b = "set_domain b' p (f p)"
  let ?r = "remove_inferences ?b rec"
  have shape: "board_shape ?b" using Cons.prems(1) by (rule board_shape_set_domain)
  have c: "cell ?b q = (if q = p then (cell b' p)\<lparr>domain := f p\<rparr> else cell b' q)"
    by (rule cell_set_domain[OF Cons.prems(1) p(1)])
  from Cons.IH[OF shape rest Cons.prems(3)]
  have ih: "board_shape ?r"
    "cell ?r q = (if q \<in> fst ` set rec then (cell ?b q)\<lparr>domain := f q\<rparr> else cell ?b q)"
    by simp_all
  have r: "remove_inferences b' (e # rec) = ?r" by (simp add: e p(2))
  have m: "fst ` set (e # rec) = insert p (fst ` set rec)" by (simp add: e)
  have "cell ?r q = (if q \<in> insert p (fst ` set rec) then (cell b' q)\<lparr>domain := f q\<rparr> else cell b' q)"
  proof (cases "q = p")
    case True
    then show ?thesis unfolding ih(2) c by simp
  next
    case False
    then show ?thesis unfolding ih(2) c by simp
  qed
  with ih(1) show ?case unfolding r m by simp
qed

lemma fst_set_save_domains: "fst ` set (save_domains b ps) = {p \<in> set ps. \<not> assigned (cell b p)}"
  by (auto simp: save_domains_def image_iff)

lemma remove_inferences_restores:
  assumes "board_shape b" "i < 9" "j < 9" "pruned (open_peers b i j) b b'"
  shows "remove_inferences b' (save_domains b (peers i j)) = b"
proof -
  let ?rec = "save_domains b (peers i j)"
  have rec: "\<forall>(p, d) \<in> set ?rec. in_grid p \<and> d = domain (cell b p)"
    using peers_in_grid[OF assms(2,3)] by (auto simp: save_domains_def)
  note shape' = pruned_shape[OF assms(4)]
  show ?thesis
  proof (rule board_ext)
    show "board_shape (remove_inferences b' ?rec)"
      using cell_remove_inferences[OF shape' rec, of "(0, 0)"] by (simp add: in_grid_def)
    show "board_shape b" by fact
  next
    fix q assume q: "in_grid q"
    from cell_remove_inferences[OF shape' rec q]
    have c: "cell (remove_inferences b' ?rec) q =
        (if q \<in> open_peers b i j then (cell b' q)\<lparr>domain := domain (cell b q)\<rparr> else cell b' q)"
      by (simp add: fst_set_save_domains open_peers_def)
    show "cell (remove_inferences b' ?rec) q = cell b q"
    proof (cases "q \<in> open_peers b i j")
      case True
      have "(cell b' q)\<lparr>domain := domain (cell b q)\<rparr> = cell b q"
        by (subst pruned_cell[OF assms(4) q]) simp
      with True c show ?thesis by simp
    next
      case False
      with c pruned_outside[OF assms(4) q] show ?thesis by simp
    qed
  qed
qed

lemma forward_check_pruned:
  assumes "board_shape b" "i < 9" "j < 9" "forward_check b i j = Inr (c, original, b')"
  shows "pruned (open_peers b i j) b b'" "original = save_domains b (peers i j)"
    "remove_inferences b' original = b"
proof -
  from forward_check_Inr[OF assms(4)]
  have s: "forward_steps b i j = Inr (c, b')" and o: "original = save_domains b (peers i j)" .
  from pruned_forward_steps[OF assms(1-3) s] show p: "pruned (open_peers b i j) b b'" .
  show "original = save_domains b (peers i j)" by fact
  from remove_inferences_restores[OF assms(1-3) p] show "remove_inferences b' original = b"
    by (simp add: o)
qed

lemma set_value_undo:
  assumes "board_shape b" "in_grid p" "\<not> assigned (cell b p)"
  shows "set_value (set_value b p v) p 0 = b"
proof (rule board_ext)
  show "board_shape (set_value (set_value b p v) p 0)"
    using assms(1) by (simp add: board_shape_set_value)
  show "board_shape b" by fact
next
  fix q assume "in_grid q"
  have "board_shape (set_value b p v)" using assms(1) by (rule board_shape_set_value)
  then have "cell (set_value (set_value b p v) p 0) q
      = (if q = p then (cell b p)\<lparr>value := 0\<rparr> else cell b q)"
    by (simp add: cell_set_value assms(1,2))
  moreover have "(cell b p)\<lparr>value := 0\<rparr> = cell b p"
    using assms(3) by (simp add: assigned_def)
  ultimately show "cell (set_value (set_value b p v) p 0) q = cell b q" by simp
qed

subsection \<open>On a well-formed board forward checking raises nothing\<close>

lemma wf_board_cell:
  assumes "wf_board b" "i < 9" "j < 9"
  shows "0 \<le> value (cell b (i, j))" "value (cell b (i, j)) \<le> 9"
    "length (domain (cell b (i, j))) = 9"
    "up (cell b (i, j)) \<in> set dot_types" "down (cell b (i, j)) \<in> set dot_types"
    "left (cell b (i, j)) \<in> set dot_types" "right (cell b (i, j)) \<in> set dot_types"
    "up (cell b (i, j)) = (if i = 0 then ''0'' else down (cell b (i - 1, j)))"
    "down (cell b (i, j)) = (if i = 8 then ''0'' else up (cell b (i + 1, j)))"
    "left (cell b (i, j)) = (if j = 0 then ''0'' else right (cell b (i, j - 1)))"
    "right (cell b (i, j)) = (if j = 8 then ''0'' else left (cell b (i, j + 1)))"
proof -
  have "(i, j) \<in> set all_positions" using assms(2,3) by (simp add: set_all_positions in_grid_def)
  with assms(1) have
    "case (i, j) of (i, j) \<Rightarrow> let var = cell b (i, j) in
          0 \<le> value var \<and> value var \<le> 9 \<and> length (domain var) = 9
        \<and> up var \<in> set dot_types \<and> down var \<in> set dot_types
        \<and> left var \<in> set dot_types \<and> right var \<in> set dot_types
        \<and> up var = (if i = 0 then ''0'' else down (cell b (i - 1, j)))
        \<and> down var = (if i = 8 then ''0'' else up (cell b (i + 1, j)))
        \<and> left var = (if j = 0 then ''0'' else right (cell b (i, j - 1)))
        \<and> right var = (if j = 8 then ''0'' else left (cell b (i, j + 1)))"
    unfolding wf_board_def list_all_iff by blast
  then have h: "0 \<le> value (cell b (i, j)) \<and> value (cell b (i, j)) \<le> 9
        \<and> length (domain (cell b (i, j))) = 9
        \<and> up (cell b (i, j)) \<in> set dot_types \<and> down (cell b (i, j)) \<in> set dot_types
        \<and> left (cell b (i, j)) \<in> set dot_types \<and> right (cell b (i, j)) \<in> set dot_types
        \<and> up (cell b (i, j)) = (if i = 0 then ''0'' else down (cell b (i - 1, j)))
        \<and> down (cell b (i, j)) = (if i = 8 then ''0'' else up (cell b (i + 1, j)))
        \<and> left (cell b (i, j)) = (if j = 0 then ''0'' else right (cell b (i, j - 1)))
        \<and> right (cell b (i, j)) = (if j = 8 then ''0'' else left (cell b (i, j + 1)))"
    unfolding prod.case Let_def .
  then show "0 \<le> value (cell b (i, j))" "value (cell b (i, j)) \<le> 9"
    "length (domain (cell b (i, j))) = 9"
    "up (cell b (i, j)) \<in> set dot_types" "down (cell b (i, j)) \<in> set dot_types"
    "left (cell b (i, j)) \<in> set dot_types" "right (cell b (i, j)) \<in> set dot_types"
    "up (cell b (i, j)) = (if i = 0 then ''0'' else down (cell b (i - 1, j)))"
    "down (cell b (i, j)) = (if i = 8 then ''0'' else up (cell b (i + 1, j)))"
    "left (cell b (i, j)) = (if j = 0 then ''0'' else right (cell b (i, j - 1)))"
    "right (cell b (i, j)) = (if j = 8 then ''0'' else left (cell b (i, j + 1)))"
    by blast+
qed

lemma wf_board_shape: "wf_board b \<Longrightarrow> board_shape b"
  by (simp add: wf_board_def)









subsection \<open>A False flag comes with an emptied neighbour\<close>




subsection \<open>Well-formedness is kept by every write of the search\<close>

lemma wf_board_cong:
  assumes "wf_board b" "board_shape b'"
    and "\<And>q. in_grid q \<Longrightarrow>
          up (cell b' q) = up (cell b q) \<and> down (cell b' q) = down (cell b q)
        \<and> left (cell b' q) = left (cell b q) \<and> right (cell b' q) = right (cell b q)
        \<and> length (domain (cell b' q)) = 9 \<and> 0 \<le> value (cell b' q) \<and> value (cell b' q) \<le> 9"
  shows "wf_board b'"
  unfolding wf_board_def list_all_iff
proof (intro conjI ballI)
  show "board_shape b'" by fact
next
  fix q assume "q \<in> set all_positions"
  then have "in_grid q" unfolding set_all_positions by simp
  then obtain i j where q: "q = (i, j)" and ij: "i < 9" "j < 9"
    by (cases q) (simp add: in_grid_def)
  note w = wf_board_cell[OF assms(1) ij]
  have g: "in_grid (i, j)" using ij by (simp add: in_grid_def)
  note c = assms(3)[OF g]
  have u: "up (cell b' (i, j)) = (if i = 0 then ''0'' else down (cell b' (i - 1, j)))"
  proof (cases "i = 0")
    case True
    with w(8) c show ?thesis by simp
  next
    case False
    with ij have "in_grid (i - 1, j)" by (simp add: in_grid_def)
    from assms(3)[OF this] False w(8) c show ?thesis by simp
  qed
  have d: "down (cell b' (i, j)) = (if i = 8 then ''0'' else up (cell b' (i + 1, j)))"
  proof (cases "i = 8")
    case True
    with w(9) c show ?thesis by simp
  next
    case False
    with ij have "in_grid (i + 1, j)" by (simp add: in_grid_def)
    from assms(3)[OF this] False w(9) c show ?thesis by simp
  qed
  have l: "left (cell b' (i, j)) = (if j = 0 then ''0'' else right (cell b' (i, j - 1)))"
  proof (cases "j = 0")
    case True
    with w(10) c show ?thesis by simp
  next
    case False
    with ij have "in_grid (i, j - 1)" by (simp add: in_grid_def)
    from assms(3)[OF this] False w(10) c show ?thesis by simp
  qed
  have r: "right (cell b' (i, j)) = (if j = 8 then ''0'' else left (cell b' (i, j + 1)))"
  proof (cases "j = 8")
    case True
    with w(11) c show ?thesis by simp
  next
    case False
    with ij have "in_grid (i, j + 1)" by (simp add: in_grid_def)
    from assms(3)[OF this] False w(11) c show ?thesis by simp
  qed
  from c w(4-7) have "0 \<le> value (cell b' (i, j)) \<and> value (cell b' (i, j)) \<le> 9
      \<and> length (domain (cell b' (i, j))) = 9
      \<and> up (cell b' (i, j)) \<in> set dot_types \<and> down (cell b' (i, j)) \<in> set dot_types
      \<and> left (cell b' (i, j)) \<in> set dot_types \<and> right (cell b' (i, j)) \<in> set dot_types"
    by simp
  with u d l r show "case q of (i, j) \<Rightarrow> let var = cell b' (i, j) in
          0 \<le> value var \<and> value var \<le> 9 \<and> length (domain var) = 9
        \<and> up var \<in> set dot_types \<and> down var \<in> set dot_types
        \<and> left var \<in> set dot_types \<and> right var \<in> set dot_types
        \<and> up var = (if i = 0 then ''0'' else down (cell b' (i - 1, j)))
        \<and> down var = (if i = 8 then ''0'' else up (cell b' (i + 1, j)))
        \<and> left var = (if j = 0 then ''0'' else right (cell b' (i, j - 1)))
        \<and> right var = (if j = 8 then ''0'' else left (cell b' (i, j + 1)))"
    unfolding q prod.case Let_def by blast
qed

lemma wf_board_in_grid:
  assumes "wf_board b" "in_grid q"
  shows "0 \<le> value (cell b q)" "value (cell b q) \<le> 9" "length (domain (cell b q)) = 9"
proof -
  obtain i j where q: "q = (i, j)" by (cases q)
  with assms(2) have "i < 9" "j < 9" by (simp_all add: in_grid_def)
  from wf_board_cell(1-3)[OF assms(1) this]
  show "0 \<le> value (cell b q)" "value (cell b q) \<le> 9" "length (domain (cell b q)) = 9"
    by (simp_all add: q)
qed


lemma wf_board_pruned:
  assumes "wf_board b" "pruned S b b'"
  shows "wf_board b'"
proof (rule wf_board_cong[OF assms(1)])
  show "board_shape b'" using assms(2) by (rule pruned_shape)
  fix q assume q: "in_grid q"
  from wf_board_in_grid[OF assms(1) q] pruned_fields[OF assms(2) q]
  show "up (cell b' q) = up (cell b q) \<and> down (cell b' q) = down (cell b q)
        \<and> left (cell b' q) = left (cell b q) \<and> right (cell b' q) = right (cell b q)
        \<and> length (domain (cell b' q)) = 9 \<and> 0 \<le> value (cell b' q) \<and> value (cell b' q) \<le> 9"
    by simp
qed

subsection \<open>A True flag leaves no neighbour empty\<close>





subsection \<open>The MRV loop\<close>

lemma mrv_loop_append: "mrv_loop b (ps @ qs) st = mrv_loop b qs (mrv_loop b ps st)"
proof (induction ps arbitrary: st)
  case Nil
  show ?case by simp
next
  case (Cons p ps)
  obtain mrv cur where st: "st = (mrv, cur)" by (cases st)
  show ?case unfolding st by (cases cur) (simp_all add: Cons.IH Let_def)
qed

lemma mrv_loop_result:
  "case mrv_loop b ps ([], None) of
     (mrv, None) \<Rightarrow> mrv = [] \<and> open_cells b ps = []
   | (mrv, Some m) \<Rightarrow> mrv \<noteq> []
       \<and> (\<forall>q\<in>set (open_cells b ps). m \<le> remaining_value_count (cell b q))
       \<and> mrv = filter (\<lambda>p. remaining_value_count (cell b p) = m) (open_cells b ps)"
proof (induction ps rule: rev_induct)
  case Nil
  show ?case by (simp add: open_cells_def)
next
  case (snoc p ps)
  obtain mrv cur where r: "mrv_loop b ps ([], None) = (mrv, cur)" by (cases "mrv_loop b ps ([], None)")
  have step: "mrv_loop b (ps @ [p]) ([], None) = mrv_loop b [p] (mrv, cur)"
    by (simp add: mrv_loop_append r)
  show ?case
  proof (cases "assigned (cell b p)")
    case True
    with snoc r show ?thesis by (simp add: step open_cells_def)
  next
    case False
    show ?thesis
    proof (cases cur)
      case None
      from snoc[unfolded r None prod.case option.case] have "open_cells b ps = []" by simp
      with False None show ?thesis by (simp add: step open_cells_def Let_def)
    next
      case (Some m)
      from snoc[unfolded r Some prod.case option.case]
      have c: "mrv \<noteq> []
        \<and> (\<forall>q\<in>set (open_cells b ps). m \<le> remaining_value_count (cell b q))
        \<and> mrv = filter (\<lambda>p. remaining_value_count (cell b p) = m) (open_cells b ps)" .
      note ih = conjunct1[OF c] conjunct1[OF conjunct2[OF c]] conjunct2[OF conjunct2[OF c]]
      let ?r = "remaining_value_count (cell b p)"
      have oc: "open_cells b (ps @ [p]) = open_cells b ps @ [p]"
        using False by (simp add: open_cells_def)
      consider "?r > m" | "?r = m" | "?r < m" by linarith
      then show ?thesis
      proof cases
        case 1
        with False Some ih show ?thesis by (simp add: step oc Let_def)
      next
        case 2
        with False Some ih show ?thesis by (simp add: step oc Let_def)
      next
        case 3
        have "filter (\<lambda>q. remaining_value_count (cell b q) = ?r) (open_cells b ps) = []"
          using ih(2) 3 by (auto simp: filter_empty_conv)
        with 3 False Some ih(2) show ?thesis by (auto simp: step oc Let_def)
      qed
    qed
  qed
qed

subsection \<open>The degree loop\<close>

lemma degree_loop_append: "degree_loop b (ps @ qs) st = degree_loop b qs (degree_loop b ps st)"
proof (induction ps arbitrary: st)
  case Nil
  show ?case by simp
next
  case (Cons p ps)
  obtain sel d where st: "st = (sel, d)" by (cases st)
  obtain i j where p: "p = (i, j)" by (cases p)
  show ?case unfolding st p by (cases sel) (simp_all add: Cons.IH Let_def)
qed

lemma degree_loop_result:
  "case degree_loop b ps (None, 0) of
     (None, d) \<Rightarrow> ps = []
   | (Some s, d) \<Rightarrow> d = degree b s
       \<and> (\<exists>xs ys. ps = xs @ s # ys \<and> (\<forall>q\<in>set xs. degree b q < degree b s)
             \<and> (\<forall>q\<in>set ys. degree b q \<le> degree b s))"
proof (induction ps rule: rev_induct)
  case Nil
  show ?case by simp
next
  case (snoc p ps)
  obtain sel d where r: "degree_loop b ps (None, 0) = (sel, d)" by (cases "degree_loop b ps (None, 0)")
  obtain i j where p: "p = (i, j)" by (cases p)
  have step: "degree_loop b (ps @ [p]) (None, 0) = degree_loop b [(i, j)] (sel, d)"
    by (simp add: degree_loop_append r p)
  have dp: "unassigned_neighbors_count b i j = degree b p" by (simp add: degree_def p)
  have res: "degree_loop b (ps @ [p]) (None, 0) =
      (case sel of None \<Rightarrow> (Some p, degree b p)
       | Some s \<Rightarrow> if degree b p > d then (Some p, degree b p) else (sel, d))"
    unfolding step by (cases sel) (simp_all add: Let_def dp p)
  show ?case
  proof (cases sel)
    case None
    with snoc r have "ps = []" by simp
    have "\<exists>xs ys. [p] = xs @ p # ys \<and> (\<forall>q\<in>set xs. degree b q < degree b p)
             \<and> (\<forall>q\<in>set ys. degree b q \<le> degree b p)"
      by (intro exI[of _ "[]"]) simp
    with None \<open>ps = []\<close> show ?thesis unfolding res by simp
  next
    case (Some s)
    with snoc r obtain xs ys where ih: "d = degree b s" "ps = xs @ s # ys"
      "\<forall>q\<in>set xs. degree b q < degree b s" "\<forall>q\<in>set ys. degree b q \<le> degree b s"
      by auto
    show ?thesis
    proof (cases "degree b p > degree b s")
      case True
      have "ps @ [p] = ps @ p # []" by simp
      moreover have "\<forall>q\<in>set ps. degree b q < degree b p"
        using ih True by auto
      ultimately have "\<exists>xs ys. ps @ [p] = xs @ p # ys \<and> (\<forall>q\<in>set xs. degree b q < degree b p)
             \<and> (\<forall>q\<in>set ys. degree b q \<le> degree b p)"
        by (intro exI[of _ ps] exI[of _ "[]"]) simp
      with True Some ih(1) show ?thesis unfolding res by simp
    next
      case False
      have "ps @ [p] = xs @ s # (ys @ [p])" using ih(2) by simp
      moreover have "\<forall>q\<in>set (ys @ [p]). degree b q \<le> degree b s" using ih(4) False by auto
      ultimately have "\<exists>xs ys. ps @ [p] = xs @ s # ys \<and> (\<forall>q\<in>set xs. degree b q < degree b s)
             \<and> (\<forall>q\<in>set ys. degree b q \<le> degree b s)"
        using ih(3) by blast
      with False Some ih(1) show ?thesis unfolding res by simp
    qed
  qed
qed

subsection \<open>The scan order\<close>

lemma sorted_all_positions: "sorted_wrt scan_less all_positions"
  by code_simp

lemma in_peers_same_unit:
  assumes "in_grid p"
  shows "(q \<in> set (peers (fst p) (snd p))) = (in_grid q \<and> q \<noteq> p \<and> same_unit p q)"
proof -
  obtain i j where p: "p = (i, j)" by (cases p)
  obtain k l where q: "q = (k, l)" by (cases q)
  from assms have ij: "i < 9" "j < 9" by (simp_all add: p in_grid_def)
  define a where "a \<longleftrightarrow> k div 3 = i div 3"
  define c where "c \<longleftrightarrow> l div 3 = j div 3"
  have ka: "a \<Longrightarrow> k < 9" unfolding a_def using div3_lt9[OF _ ij(1)] .
  have lc: "c \<Longrightarrow> l < 9" unfolding c_def using div3_lt9[OF _ ij(2)] .
  have ia: "k = i \<Longrightarrow> a" by (simp add: a_def)
  have jc: "l = j \<Longrightarrow> c" by (simp add: c_def)
  have "((k = i \<and> l < 9 \<and> l \<noteq> j) \<or> (l = j \<and> k < 9 \<and> k \<noteq> i) \<or> (a \<and> c \<and> k \<noteq> i \<and> l \<noteq> j))
      = ((k < 9 \<and> l < 9) \<and> \<not> (k = i \<and> l = j) \<and> (i = k \<or> j = l \<or> (a \<and> c)))"
    using ka lc ia jc ij by blast
  then show ?thesis
    unfolding p q in_peers in_grid_def same_unit_def fst_conv snd_conv prod.inject a_def c_def
    by (simp add: eq_commute[of "i div 3"] eq_commute[of "j div 3"])
qed

lemma distinct_row_positions: "distinct (row_positions i j)"
  unfolding row_positions_def
  by (intro distinct_map[THEN iffD2] conjI distinct_filter distinct_upt inj_onI) simp

lemma distinct_col_positions: "distinct (col_positions i j)"
  unfolding col_positions_def
  by (intro distinct_map[THEN iffD2] conjI distinct_filter distinct_upt inj_onI) simp

lemma distinct_box_indexes: "distinct (box_indexes i j)"
  by (simp add: box_indexes_def Let_def)

lemma distinct_box_positions: "distinct (box_positions i j)"
  unfolding box_positions_def by (intro distinct_filter distinct_box_indexes)

lemma disjoint_positions:
  "set (row_positions i j) \<inter> set (col_positions i j) = {}"
  "set (row_positions i j) \<inter> set (box_positions i j) = {}"
  "set (col_positions i j) \<inter> set (box_positions i j) = {}"
proof -
  have rc: "(k, l) \<in> set (row_positions i j) \<Longrightarrow> (k, l) \<notin> set (col_positions i j)" for k l
    by (simp add: in_row_positions in_col_positions)
  have rb: "(k, l) \<in> set (row_positions i j) \<Longrightarrow> (k, l) \<notin> set (box_positions i j)" for k l
    by (simp add: in_row_positions in_box_positions)
  have cb: "(k, l) \<in> set (col_positions i j) \<Longrightarrow> (k, l) \<notin> set (box_positions i j)" for k l
    by (simp add: in_col_positions in_box_positions)
  show "set (row_positions i j) \<inter> set (col_positions i j) = {}"
  proof (rule ccontr)
    assume "set (row_positions i j) \<inter> set (col_positions i j) \<noteq> {}"
    then obtain p where "p \<in> set (row_positions i j)" "p \<in> set (col_positions i j)" by blast
    then show False using rc[of "fst p" "snd p"] by simp
  qed
  show "set (row_positions i j) \<inter> set (box_positions i j) = {}"
  proof (rule ccontr)
    assume "set (row_positions i j) \<inter> set (box_positions i j) \<noteq> {}"
    then obtain p where "p \<in> set (row_positions i j)" "p \<in> set (box_positions i j)" by blast
    then show False using rb[of "fst p" "snd p"] by simp
  qed
  show "set (col_positions i j) \<inter> set (box_positions i j) = {}"
  proof (rule ccontr)
    assume "set (col_positions i j) \<inter> set (box_positions i j) \<noteq> {}"
    then obtain p where "p \<in> set (col_positions i j)" "p \<in> set (box_positions i j)" by blast
    then show False using cb[of "fst p" "snd p"] by simp
  qed
qed

lemma distinct_peers: "distinct (peers i j)"
  unfolding peers_def distinct_append set_append
  using distinct_row_positions distinct_col_positions distinct_box_positions disjoint_positions[of i j]
  by blast

lemma unassigned_neighbors_count_card:
  "unassigned_neighbors_count b i j = card {n \<in> set (peers i j). \<not> assigned (cell b n)}"
proof -
  have "unassigned_neighbors_count b i j = length (filter (\<lambda>p. \<not> assigned (cell b p)) (peers i j))"
    by (simp add: unassigned_neighbors_count_def count_unassigned_def peers_def)
  also have "\<dots> = card {n \<in> set (peers i j). \<not> assigned (cell b n)}"
    using distinct_peers[of i j] by (simp add: distinct_length_filter Int_def conj_commute)
  finally show ?thesis .
qed

subsection \<open>The selected cell\<close>

lemma select_variable_characterisation:
  assumes "\<not> assignment_complete b"
  shows "\<exists>p. select_variable b = Some p \<and> in_grid p \<and> \<not> assigned (cell b p)
      \<and> (\<forall>q. in_grid q \<and> \<not> assigned (cell b q) \<longrightarrow>
            remaining_value_count (cell b p) \<le> remaining_value_count (cell b q)
          \<and> (remaining_value_count (cell b q) = remaining_value_count (cell b p) \<longrightarrow>
               degree b q \<le> degree b p \<and> (degree b q = degree b p \<longrightarrow> scan_le p q)))"
proof -
  let ?U = "open_cells b all_positions"
  let ?r = "\<lambda>p. remaining_value_count (cell b p)"
  have U: "set ?U = {p. in_grid p \<and> \<not> assigned (cell b p)}"
    by (auto simp: open_cells_def set_all_positions)
  from assms have ne: "?U \<noteq> []"
    by (auto simp: assignment_complete_def open_cells_def list_all_iff filter_empty_conv)
  obtain M cur where ml: "mrv_loop b all_positions ([], None) = (M, cur)"
    by (cases "mrv_loop b all_positions ([], None)")
  from mrv_loop_result[where b = b and ps = all_positions, unfolded ml prod.case] ne
  obtain m where cur: "cur = Some m" by (cases cur) simp_all
  from mrv_loop_result[where b = b and ps = all_positions, unfolded ml cur prod.case option.case]
  have M: "M \<noteq> []" "\<forall>q\<in>set ?U. m \<le> ?r q" "M = filter (\<lambda>p. ?r p = m) ?U" by blast+
  obtain sel d where dl: "degree_loop b M (None, 0) = (sel, d)"
    by (cases "degree_loop b M (None, 0)")
  from degree_loop_result[where b = b and ps = M, unfolded dl prod.case] M(1)
  obtain s where sel: "sel = Some s" by (cases sel) simp_all
  from degree_loop_result[where b = b and ps = M, unfolded dl sel prod.case option.case]
  obtain xs ys where s: "M = xs @ s # ys" "\<forall>q\<in>set xs. degree b q < degree b s"
    "\<forall>q\<in>set ys. degree b q \<le> degree b s" by blast
  have sv: "select_variable b = Some s" by (simp add: select_variable_def ml dl sel)
  have setM: "set M = {p. in_grid p \<and> \<not> assigned (cell b p) \<and> ?r p = m}"
    unfolding M(3) using U by auto
  have "s \<in> set M" by (simp add: s(1))
  with setM have sp: "in_grid s" "\<not> assigned (cell b s)" "?r s = m" by simp_all
  have "sorted_wrt scan_less M"
    unfolding M(3) open_cells_def by (intro sorted_wrt_filter sorted_all_positions)
  then have after: "\<forall>q\<in>set ys. scan_less s q"
    unfolding s(1) sorted_wrt_append by simp
  have "?r s \<le> ?r q \<and> (?r q = ?r s \<longrightarrow> degree b q \<le> degree b s \<and> (degree b q = degree b s \<longrightarrow> scan_le s q))"
    if q: "in_grid q \<and> \<not> assigned (cell b q)" for q
  proof (intro conjI impI)
    from q U have "q \<in> set ?U" by simp
    with M(2) sp(3) show "?r s \<le> ?r q" by simp
  next
    assume "?r q = ?r s"
    with q sp(3) setM have "q \<in> set M" by simp
    then consider "q \<in> set xs" | "q = s" | "q \<in> set ys" unfolding s(1) by auto
    note cases = this
    from cases show "degree b q \<le> degree b s"
      using s(2,3) by cases auto
    assume eq: "degree b q = degree b s"
    from cases show "scan_le s q"
    proof cases
      case 1
      with s(2) eq show ?thesis by auto
    next
      case 2
      then show ?thesis by (simp add: scan_le_def)
    next
      case 3
      with after show ?thesis by (auto simp: scan_le_def scan_less_def)
    qed
  qed
  with sv sp(1,2) show ?thesis by blast
qed

lemma select_variable_Some:
  assumes "\<not> assignment_complete b"
  obtains p where "select_variable b = Some p" "in_grid p" "\<not> assigned (cell b p)"
  using select_variable_characterisation[OF assms] by blast

subsection \<open>The example board\<close>

lemma example_parse: "parse_board example_values example_hdots example_vdots = Inr example_board"
  by code_simp

lemma example_wf: "wf_board example_board"
  by code_simp

lemma example_shape: "board_shape example_board"
  using example_wf by (rule wf_board_shape)

lemma example_forward_check:
  "\<exists>original b'.
      forward_check (set_value example_board (0, 5) 6) 0 5 = Inr (False, original, b')
    \<and> map fst original = [(0, 2), (1, 5), (2, 5)]
    \<and> domain (cell example_board (1, 5)) = [0, 0, 0, 0, 0, 1, 0, 0, 1]
    \<and> domain (cell b' (1, 5)) = [0, 0, 0, 0, 0, 0, 0, 0, 0]"
proof -
  have "case forward_check (set_value example_board (0, 5) 6) 0 5 of
          Inl e \<Rightarrow> False
        | Inr (c, original, b') \<Rightarrow> \<not> c \<and> map fst original = [(0, 2), (1, 5), (2, 5)]
            \<and> domain (cell example_board (1, 5)) = [0, 0, 0, 0, 0, 1, 0, 0, 1]
            \<and> domain (cell b' (1, 5)) = [0, 0, 0, 0, 0, 0, 0, 0, 0]"
    by code_simp
  then show ?thesis by (auto split: sum.splits)
qed

lemma example_select:
  "\<not> assignment_complete example_board" "select_variable example_board = Some (0, 2)"
  "\<not> assigned (cell example_board (0, 5))" "\<not> assigned (cell example_board (2, 5))"
  "remaining_value_count (cell example_board (0, 2)) = 2"
  "remaining_value_count (cell example_board (2, 5)) = 2"
  "degree example_board (0, 2) = 3" "degree example_board (2, 5) = 3"
  by code_simp+

section \<open>Rollback is exact\<close>

text \<open>
  C4. On a 9 x 9 board, take an unassigned cell, set its value, run \<open>forward_check\<close>
  and, whatever flag it returns, call \<open>remove_inferences\<close> on the returned record and
  reset the value to unassigned: the board is then the board before the assignment, cell
  by cell (so every domain is restored entry for entry, also those pruned by a dot).
\<close>

theorem rollback_exact:
  assumes "board_shape b" and "in_grid p" and "\<not> assigned (cell b p)"
    and "forward_check (set_value b p v) (fst p) (snd p) = Inr (consistent, original, b')"
  shows "set_value (remove_inferences b' original) p 0 = b"
proof -
  have shape: "board_shape (set_value b p v)" using assms(1) by (rule board_shape_set_value)
  from assms(2) have ij: "fst p < 9" "snd p < 9" by (simp_all add: in_grid_def)
  from forward_check_pruned(3)[OF shape ij assms(4)]
  have "remove_inferences b' original = set_value b p v" .
  then show ?thesis by (simp add: set_value_undo[OF assms(1-3)])
qed

theorem rollback_exact_witness:
  "board_shape example_board \<and> in_grid (0, 5) \<and> \<not> assigned (cell example_board (0, 5))
   \<and> (\<exists>original b'.
         forward_check (set_value example_board (0, 5) 6) 0 5 = Inr (False, original, b')
       \<and> map fst original = [(0, 2), (1, 5), (2, 5)]
       \<and> domain (cell example_board (1, 5)) = [0, 0, 0, 0, 0, 1, 0, 0, 1]
       \<and> domain (cell b' (1, 5)) = [0, 0, 0, 0, 0, 0, 0, 0, 0]
       \<and> set_value (remove_inferences b' original) (0, 5) 0 = example_board)"
proof -
  have g: "in_grid (0, 5)" by (simp add: in_grid_def)
  note u = example_select(3)
  from example_forward_check obtain original b' where
    fc: "forward_check (set_value example_board (0, 5) 6) 0 5 = Inr (False, original, b')"
    and rest: "map fst original = [(0, 2), (1, 5), (2, 5)]"
      "domain (cell example_board (1, 5)) = [0, 0, 0, 0, 0, 1, 0, 0, 1]"
      "domain (cell b' (1, 5)) = [0, 0, 0, 0, 0, 0, 0, 0, 0]"
    by auto
  from fc have "forward_check (set_value example_board (0, 5) 6) (fst (0, 5)) (snd (0, 5))
      = Inr (False, original, b')" by simp
  from rollback_exact[OF example_shape g u this]
  have restored: "set_value (remove_inferences b' original) (0, 5) 0 = example_board" .
  have "\<exists>original b'.
         forward_check (set_value example_board (0, 5) 6) 0 5 = Inr (False, original, b')
       \<and> map fst original = [(0, 2), (1, 5), (2, 5)]
       \<and> domain (cell example_board (1, 5)) = [0, 0, 0, 0, 0, 1, 0, 0, 1]
       \<and> domain (cell b' (1, 5)) = [0, 0, 0, 0, 0, 0, 0, 0, 0]
       \<and> set_value (remove_inferences b' original) (0, 5) 0 = example_board"
  proof (intro exI conjI)
    show "forward_check (set_value example_board (0, 5) 6) 0 5 = Inr (False, original, b')"
      by (rule fc)
    show "map fst original = [(0, 2), (1, 5), (2, 5)]" by (rule rest(1))
    show "domain (cell example_board (1, 5)) = [0, 0, 0, 0, 0, 1, 0, 0, 1]" by (rule rest(2))
    show "domain (cell b' (1, 5)) = [0, 0, 0, 0, 0, 0, 0, 0, 0]" by (rule rest(3))
    show "set_value (remove_inferences b' original) (0, 5) 0 = example_board" by (rule restored)
  qed
  with example_shape g u show ?thesis by (intro conjI)
qed

section \<open>Variable selection\<close>

text \<open>
  C5. On a board with at least one unassigned cell, \<open>select_variable\<close> returns a cell
  of the grid that is unassigned and whose \<open>remaining_value_count\<close> is minimal among
  the unassigned cells; among the unassigned cells with that count its degree is maximal,
  where the degree of a cell is the number of unassigned cells other than itself that
  share its row, its column or its box; and among those of the same count and the same
  degree it comes first in row-major order.
\<close>

theorem select_variable_mrv_degree:
  assumes "\<not> assignment_complete b"
  shows "\<exists>p. select_variable b = Some p \<and> in_grid p \<and> \<not> assigned (cell b p)
      \<and> (\<forall>q. in_grid q \<and> \<not> assigned (cell b q) \<longrightarrow>
            remaining_value_count (cell b p) \<le> remaining_value_count (cell b q)
          \<and> (remaining_value_count (cell b q) = remaining_value_count (cell b p) \<longrightarrow>
               degree b q \<le> degree b p \<and> (degree b q = degree b p \<longrightarrow> scan_le p q)))
      \<and> (\<forall>q. in_grid q \<longrightarrow>
            degree b q = card {n. in_grid n \<and> n \<noteq> q \<and> same_unit q n \<and> \<not> assigned (cell b n)})"
proof -
  have "degree b q = card {n. in_grid n \<and> n \<noteq> q \<and> same_unit q n \<and> \<not> assigned (cell b n)}"
    if "in_grid q" for q
  proof -
    have "{n \<in> set (peers (fst q) (snd q)). \<not> assigned (cell b n)}
        = {n. in_grid n \<and> n \<noteq> q \<and> same_unit q n \<and> \<not> assigned (cell b n)}"
      using in_peers_same_unit[OF that] by blast
    then show ?thesis by (simp add: degree_def unassigned_neighbors_count_card)
  qed
  with select_variable_characterisation[OF assms] show ?thesis by blast
qed

theorem select_variable_mrv_degree_witness:
  "\<not> assignment_complete example_board \<and> select_variable example_board = Some (0, 2)
   \<and> in_grid (0, 2) \<and> \<not> assigned (cell example_board (0, 2))
   \<and> remaining_value_count (cell example_board (0, 2)) \<le> remaining_value_count (cell example_board (2, 5))
   \<and> degree example_board (2, 5) \<le> degree example_board (0, 2)
   \<and> scan_le (0, 2) (2, 5)
   \<and> degree example_board (0, 2)
       = card {n. in_grid n \<and> n \<noteq> (0, 2) \<and> same_unit (0, 2) n \<and> \<not> assigned (cell example_board n)}"
proof -
  from select_variable_mrv_degree[OF example_select(1)] example_select(2)
  have sel: "in_grid (0, 2)" "\<not> assigned (cell example_board (0, 2))"
    and least: "\<And>q. in_grid q \<Longrightarrow> \<not> assigned (cell example_board q) \<Longrightarrow>
            remaining_value_count (cell example_board (0, 2)) \<le> remaining_value_count (cell example_board q)
          \<and> (remaining_value_count (cell example_board q) = remaining_value_count (cell example_board (0, 2)) \<longrightarrow>
               degree example_board q \<le> degree example_board (0, 2)
             \<and> (degree example_board q = degree example_board (0, 2) \<longrightarrow> scan_le (0, 2) q))"
    and deg: "\<And>q. in_grid q \<Longrightarrow> degree example_board q
       = card {n. in_grid n \<and> n \<noteq> q \<and> same_unit q n \<and> \<not> assigned (cell example_board n)}"
    by auto
  have g: "in_grid (2, 5)" by (simp add: in_grid_def)
  from least[OF g example_select(4)] example_select(5-8)
  have "remaining_value_count (cell example_board (0, 2)) \<le> remaining_value_count (cell example_board (2, 5))"
    "degree example_board (2, 5) \<le> degree example_board (0, 2)" "scan_le (0, 2) (2, 5)"
    by simp_all
  with example_select(1,2) sel deg[OF sel(1)] show ?thesis by (intro conjI)
qed

section \<open>Forward checking returns its record on both paths\<close>



end
